theory Spec2Isabelle
  imports Main "HOL-Library.Word"
begin

unbundle bit_operations_syntax

section \<open>Data model\<close>

text \<open>
  A shallow embedding of \<^verbatim>\<open>src/pg.c\<close>: the BGZF block encoder
  \<^verbatim>\<open>bgzip_compress_block\<close>, the block stream driver \<^verbatim>\<open>pg_bgzip_compress\<close> and the
  whole-buffer encoder \<^verbatim>\<open>pg_bgzip_gzip_compress\<close>.

  Buffers are byte lists. A C pointer together with its length (\<^verbatim>\<open>src, slen\<close> or
  \<^verbatim>\<open>in, in_size\<close>) is the list of the bytes it views. Sizes are \<^verbatim>\<open>size_t\<close>
  values, modelled as naturals; the one subtraction that can wrap is written out.
\<close>

type_synonym byte = "8 word"

text \<open>Byte order of the machine the extension runs on (\<^verbatim>\<open>htole16\<close>, \<^verbatim>\<open>htole32\<close> and
  the object representation of a \<^verbatim>\<open>uint32_t\<close> depend on it).\<close>

datatype endian = LittleEndian | BigEndian

text \<open>What a function hands back to the executor: SQL NULL (\<^verbatim>\<open>PG_RETURN_NULL\<close>) or a
  \<^verbatim>\<open>bytea\<close> (\<^verbatim>\<open>PG_RETURN_BYTEA_P\<close>).\<close>

datatype datum = Null | Bytea "byte list"

text \<open>The four \<^verbatim>\<open>elog(ERROR, ...)\<close> exits of the file, each with the value its
  message prints.\<close>

datatype error =
    InvalidNargs nat      \<comment> \<open>"Invalid number of arguments: expected 2 or 3, got %d"\<close>
  | NullArgument          \<comment> \<open>"Null arguments not accepted"\<close>
  | InvalidLevel int      \<comment> \<open>"invalid compression level: %d"\<close>
  | BlockError nat        \<comment> \<open>"Error compressing the block at position %zu"\<close>

datatype error_kind = InvalidArgument | CompressionFailure

fun kind :: "error \<Rightarrow> error_kind" where
  "kind (InvalidNargs n) = InvalidArgument"
| "kind NullArgument = InvalidArgument"
| "kind (InvalidLevel l) = InvalidArgument"
| "kind (BlockError p) = CompressionFailure"

text \<open>
  Everything the file takes from outside: the host byte order, the contents of memory
  that \<^verbatim>\<open>palloc\<close>/\<^verbatim>\<open>repalloc\<close> hand out uninitialised, and the libdeflate entry points.
  \<^item> \<open>alloc_compressor_ex level\<close>: \<^verbatim>\<open>libdeflate_alloc_compressor_ex\<close> returned non-NULL;
  \<^item> \<open>deflate_compress level src avail\<close>: the bytes \<^verbatim>\<open>libdeflate_deflate_compress\<close>
    wrote; their number is its return value, so \<open>[]\<close> is the return value 0;
  \<^item> \<open>gzip_compress level src avail\<close>: the same for \<^verbatim>\<open>libdeflate_gzip_compress\<close>;
  \<^item> \<open>crc32 src\<close>: \<^verbatim>\<open>libdeflate_crc32(0, src, slen)\<close>.
\<close>

record env =
  host :: endian
  junk :: "nat \<Rightarrow> byte"
  alloc_compressor_ex :: "int \<Rightarrow> bool"
  deflate_compress :: "int \<Rightarrow> byte list \<Rightarrow> nat \<Rightarrow> byte list"
  gzip_compress :: "int \<Rightarrow> byte list \<Rightarrow> nat \<Rightarrow> byte list"
  crc32 :: "byte list \<Rightarrow> 32 word"

section \<open>Constants\<close>

definition BGZIP_BLOCK_SIZE :: nat where
  "BGZIP_BLOCK_SIZE = 0xff00"

definition BGZIP_MAX_BLOCK_SIZE :: nat where
  "BGZIP_MAX_BLOCK_SIZE = 0x10000"

definition BLOCK_HEADER_LENGTH :: nat where
  "BLOCK_HEADER_LENGTH = 18"

definition BLOCK_FOOTER_LENGTH :: nat where
  "BLOCK_FOOTER_LENGTH = 8"

text \<open>\<^verbatim>\<open>g_magic[19]\<close>: eighteen characters and the terminating NUL of the literal.\<close>

definition g_magic :: "byte list" where
  "g_magic = [0x1f, 0x8b, 0x08, 0x04, 0, 0, 0, 0, 0, 0xff, 0x06, 0, 0x42, 0x43, 0x02, 0, 0, 0, 0]"

text \<open>\<^verbatim>\<open>eof_marker[28]\<close>.\<close>

definition eof_marker :: "byte list" where
  "eof_marker = [0x1f, 0x8b, 0x08, 0x04, 0, 0, 0, 0, 0, 0xff, 0x06, 0, 0x42, 0x43, 0x02, 0,
                 0x1b, 0, 0x03, 0, 0, 0, 0, 0, 0, 0, 0, 0]"

text \<open>The literal \<^verbatim>\<open>"\033\0\3\0\0\0\0\0\0\0\0\0"\<close> of the empty-chunk path.\<close>

definition empty_tail :: "byte list" where
  "empty_tail = [0x1b, 0, 0x03, 0, 0, 0, 0, 0, 0, 0, 0, 0]"

section \<open>Memory\<close>

text \<open>\<^verbatim>\<open>memcpy(dst + off, src, n)\<close>: the \<open>n\<close> bytes at offset \<open>off\<close> are replaced.
  Every call of the file has \<open>off \<le> length dst\<close> and \<open>n \<le> length src\<close>.\<close>

definition memcpy :: "byte list \<Rightarrow> nat \<Rightarrow> byte list \<Rightarrow> nat \<Rightarrow> byte list" where
  "memcpy dst off src n = take off dst @ take n src @ drop (off + n) dst"

text \<open>\<^verbatim>\<open>palloc(n)\<close> gives \<open>n\<close> bytes of unspecified content; \<^verbatim>\<open>repalloc(p, n)\<close> keeps
  the old bytes that fit and leaves the rest unspecified.\<close>

definition repalloc :: "env \<Rightarrow> byte list \<Rightarrow> nat \<Rightarrow> byte list" where
  "repalloc X buf n = take n buf @ map (junk X) [length buf..<n]"

definition palloc :: "env \<Rightarrow> nat \<Rightarrow> byte list" where
  "palloc X n = map (junk X) [0..<n]"

text \<open>Subtraction of two \<^verbatim>\<open>size_t\<close> values (both below \<open>2 ^ 64\<close>) on a 64-bit host:
  it wraps below zero.\<close>

definition size_t_sub :: "nat \<Rightarrow> nat \<Rightarrow> nat" where
  "size_t_sub a b = (if b \<le> a then a - b else a + 2 ^ 64 - b)"

section \<open>Packing integers\<close>

text \<open>The little-endian byte sequences of the layout table.\<close>

definition le16 :: "16 word \<Rightarrow> byte list" where
  "le16 v = [ucast v, ucast (drop_bit 8 v)]"

definition le32 :: "32 word \<Rightarrow> byte list" where
  "le32 v = [ucast v, ucast (drop_bit 8 v), ucast (drop_bit 16 v), ucast (drop_bit 24 v)]"

definition bswap_16 :: "16 word \<Rightarrow> 16 word" where
  "bswap_16 v = push_bit 8 (take_bit 8 v) OR take_bit 8 (drop_bit 8 v)"

definition bswap_32 :: "32 word \<Rightarrow> 32 word" where
  "bswap_32 v = push_bit 24 (take_bit 8 v) OR push_bit 16 (take_bit 8 (drop_bit 8 v))
                OR push_bit 8 (take_bit 8 (drop_bit 16 v)) OR take_bit 8 (drop_bit 24 v)"

definition htole16 :: "endian \<Rightarrow> 16 word \<Rightarrow> 16 word" where
  "htole16 e v = (case e of LittleEndian \<Rightarrow> v | BigEndian \<Rightarrow> bswap_16 v)"

definition htole32 :: "endian \<Rightarrow> 32 word \<Rightarrow> 32 word" where
  "htole32 e v = (case e of LittleEndian \<Rightarrow> v | BigEndian \<Rightarrow> bswap_32 v)"

text \<open>The four bytes of a \<^verbatim>\<open>uint32_t\<close> object in memory, lowest address first.\<close>

definition object_u32 :: "endian \<Rightarrow> 32 word \<Rightarrow> byte list" where
  "object_u32 e v = (case e of LittleEndian \<Rightarrow> le32 v | BigEndian \<Rightarrow> rev (le32 v))"

text \<open>\<^verbatim>\<open>packInt16\<close> keeps the result of \<^verbatim>\<open>htole16\<close> in a \<^verbatim>\<open>uint32_t\<close> and copies
  the first two bytes of that object; \<^verbatim>\<open>packInt32\<close> copies all four. Both return the
  bytes that the \<^verbatim>\<open>memcpy\<close> stores at \<^verbatim>\<open>buffer\<close>.\<close>

definition packInt16 :: "endian \<Rightarrow> 16 word \<Rightarrow> byte list" where
  "packInt16 e v = (let value_le = (ucast (htole16 e v) :: 32 word)
                    in take 2 (object_u32 e value_le))"

definition packInt32 :: "endian \<Rightarrow> 32 word \<Rightarrow> byte list" where
  "packInt32 e v = (let value_le = htole32 e v
                    in take 4 (object_u32 e value_le))"

section \<open>The block encoder\<close>

text \<open>
  \<^verbatim>\<open>bgzip_compress_block(dst, dlen, src, slen, level)\<close>. \<open>dst\<close> is the destination
  region, \<open>dlen\<close> the capacity passed in \<^verbatim>\<open>*dlen\<close>, \<open>src\<close> the chunk (\<open>slen\<close> is its
  length). The return value \<^verbatim>\<open>-1\<close> is \<open>None\<close>; the return value \<^verbatim>\<open>0\<close> is \<open>Some\<close>
  of the region after the writes and of the length left in \<^verbatim>\<open>*dlen\<close>.
\<close>

definition bgzip_compress_block ::
  "env \<Rightarrow> byte list \<Rightarrow> nat \<Rightarrow> byte list \<Rightarrow> int \<Rightarrow> (byte list \<times> nat) option" where
  "bgzip_compress_block X dst dlen src level =
     (let slen = length src in
      if slen = 0 then
        (if dlen < 28 then None
         else
           let dst = memcpy dst 0 g_magic 16;
               dst = memcpy dst 16 empty_tail 12
           in Some (dst, 28))
      else if alloc_compressor_ex X level then
        (let out = deflate_compress X level src
                     (size_t_sub (size_t_sub dlen BLOCK_HEADER_LENGTH) BLOCK_FOOTER_LENGTH);
             clen = length out;
             dst = memcpy dst BLOCK_HEADER_LENGTH out clen
         in if clen = 0 then None
            else
              let dlen = clen + BLOCK_HEADER_LENGTH + BLOCK_FOOTER_LENGTH;
                  dst = memcpy dst 0 g_magic BLOCK_HEADER_LENGTH;
                  dst = memcpy dst 16 (packInt16 (host X) (of_nat (dlen - 1))) 2;
                  crc = crc32 X src;
                  dst = memcpy dst (dlen - 8) (packInt32 (host X) crc) 4;
                  dst = memcpy dst (dlen - 4) (packInt32 (host X) (of_nat slen)) 4
              in Some (dst, dlen))
      else None)"

section \<open>The block stream driver\<close>

text \<open>
  The \<^verbatim>\<open>while (in_size > 0)\<close> loop of \<^verbatim>\<open>pg_bgzip_compress\<close>. \<open>inp\<close> is the rest of
  the input (\<^verbatim>\<open>in\<close> with \<^verbatim>\<open>in_size\<close>), \<open>compressed\<close> the data area of the output
  \<^verbatim>\<open>bytea\<close>. The error carries \<^verbatim>\<open>in_size\<close>, the argument of the \<^verbatim>\<open>%zu\<close>.
\<close>

function compress_loop ::
  "env \<Rightarrow> int \<Rightarrow> byte list \<Rightarrow> byte list \<Rightarrow> nat \<Rightarrow> error + (byte list \<times> nat)" where
  "compress_loop X level inp compressed compressed_size =
     (let in_size = length inp in
      if in_size > 0 then
        (let isize = (if in_size < BGZIP_BLOCK_SIZE then in_size else BGZIP_BLOCK_SIZE);
             dlen = BGZIP_MAX_BLOCK_SIZE;
             compressed = repalloc X compressed (compressed_size + dlen)
         in case bgzip_compress_block X (drop compressed_size compressed) dlen
                   (take isize inp) level of
              None \<Rightarrow> Inl (BlockError in_size)
            | Some (dst, dlen) \<Rightarrow>
                compress_loop X level (drop isize inp)
                  (take compressed_size compressed @ dst) (compressed_size + dlen))
      else Inr (compressed, compressed_size))"
  by pat_completeness auto
termination
  by (relation "measure (\<lambda>(X, level, inp, compressed, compressed_size). length inp)")
     (auto simp: BGZIP_BLOCK_SIZE_def)

text \<open>
  \<^verbatim>\<open>pg_bgzip_compress\<close>. \<open>nargs\<close> is \<^verbatim>\<open>PG_NARGS()\<close>; an argument that is SQL NULL is
  \<open>None\<close>. The third argument is read only when \<open>nargs = 3\<close>.
\<close>

definition pg_bgzip_compress ::
  "env \<Rightarrow> nat \<Rightarrow> byte list option \<Rightarrow> int option \<Rightarrow> bool option \<Rightarrow> error + datum" where
  "pg_bgzip_compress X nargs arg0 arg1 arg2 =
     (if nargs \<noteq> 2 \<and> nargs \<noteq> 3 then Inl (InvalidNargs nargs)
      else
        case (arg0, arg1) of
          (Some uncompressed, Some compression_level) \<Rightarrow>
            (let with_eof = (if nargs = 3 then (case arg2 of None \<Rightarrow> False | Some b \<Rightarrow> b)
                             else False)
             in if compression_level < - 1 \<or> compression_level > 9
                then Inl (InvalidLevel compression_level)
                else
                  case compress_loop X compression_level uncompressed (palloc X 0) 0 of
                    Inl e \<Rightarrow> Inl e
                  | Inr (compressed, compressed_size) \<Rightarrow>
                      if with_eof then
                        (let compressed = repalloc X compressed (compressed_size + 28);
                             compressed = memcpy compressed compressed_size eof_marker 28;
                             compressed_size = compressed_size + 28
                         in Inr (Bytea (take compressed_size compressed)))
                      else Inr (Bytea (take compressed_size compressed)))
        | _ \<Rightarrow> Inl NullArgument)"

section \<open>The whole-buffer gzip encoder\<close>

text \<open>
  \<^verbatim>\<open>pg_bgzip_gzip_compress\<close> returns through \<^verbatim>\<open>PG_RETURN_BYTEA_P\<close> or, from the
  \<^verbatim>\<open>bailout\<close> label, through \<^verbatim>\<open>PG_RETURN_NULL\<close>. The exit record also says which of
  \<^verbatim>\<open>pfree(compressed)\<close> and \<^verbatim>\<open>libdeflate_free_compressor(z)\<close> ran.
\<close>

record gz_exit =
  ret :: datum
  compressed_freed :: bool
  compressor_freed :: bool

definition bailout :: "bool \<Rightarrow> gz_exit" where
  "bailout z = \<lparr>ret = Null, compressed_freed = True, compressor_freed = z\<rparr>"

definition pg_bgzip_gzip_compress ::
  "env \<Rightarrow> byte list option \<Rightarrow> int option \<Rightarrow> error + gz_exit" where
  "pg_bgzip_gzip_compress X arg0 arg1 =
     (case (arg0, arg1) of
        (Some uncompressed, Some compression_level) \<Rightarrow>
          if compression_level < - 1 \<or> compression_level > 9
          then Inl (InvalidLevel compression_level)
          else
            (let ilen = length uncompressed;
                 dlen = ilen + BLOCK_HEADER_LENGTH + BLOCK_FOOTER_LENGTH;
                 compressed = palloc X dlen;
                 z = alloc_compressor_ex X compression_level
             in if z then
                  (let out = gzip_compress X compression_level uncompressed dlen;
                       compressed = memcpy compressed 0 out (length out);
                       dlen = length out
                   in if dlen = 0 then Inr (bailout z)
                      else Inr \<lparr>ret = Bytea (take dlen compressed),
                                compressed_freed = False, compressor_freed = True\<rparr>)
                else Inr (bailout z))
      | _ \<Rightarrow> Inl NullArgument)"

section \<open>The block layout and its reader\<close>

text \<open>
  The layout table of the format, written as a function of the chunk: sixteen fixed
  header bytes, BSIZE, the payload the compressor returns for the chunk within the
  65510 bytes the driver leaves it, CRC32 and ISIZE. Lemma \<open>block_nonempty\<close> below
  shows that these are the bytes \<open>bgzip_compress_block\<close> leaves in a 64 KiB region.
\<close>

definition bgzf_block :: "env \<Rightarrow> int \<Rightarrow> byte list \<Rightarrow> byte list" where
  "bgzf_block X level chunk =
     (let payload = deflate_compress X level chunk 65510
      in take 16 g_magic @ packInt16 (host X) (of_nat (length payload + 25)) @ payload
         @ packInt32 (host X) (crc32 X chunk) @ packInt32 (host X) (of_nat (length chunk)))"

text \<open>The \<open>i\<close>-th slice of \<open>n\<close> elements, for every \<open>i\<close> below \<open>ceil (length xs / n)\<close>.\<close>

definition slices :: "nat \<Rightarrow> 'a list \<Rightarrow> 'a list list" where
  "slices n xs = map (\<lambda>i. take n (drop (i * n) xs)) [0..<(length xs + n - 1) div n]"

text \<open>A two-byte little-endian field, read as a number.\<close>

definition rd16 :: "byte list \<Rightarrow> nat" where
  "rd16 bs = unat (bs ! 0) + 256 * unat (bs ! 1)"

text \<open>
  The repository has no decoder. This is the reader the round-trip property speaks of:
  it walks the stream block by block, takes each block's length from BSIZE, hands the
  payload to the decompressor \<open>inflate\<close> and checks the CRC32 and ISIZE footer of what
  comes back. \<open>None\<close> is a malformed stream.
\<close>

function bgzf_decode ::
  "(byte list \<Rightarrow> byte list option) \<Rightarrow> (byte list \<Rightarrow> 32 word) \<Rightarrow> byte list \<Rightarrow> byte list option" where
  "bgzf_decode inflate crc bs =
     (if bs = [] then Some []
      else if length bs < 18 then None
      else if take 16 bs = take 16 g_magic then
        (let n = rd16 (drop 16 bs) + 1 in
         if n < 26 then None
         else if length bs < n then None
         else
           case inflate (take (n - 26) (drop 18 bs)) of
             None \<Rightarrow> None
           | Some d \<Rightarrow>
               if take 4 (drop (n - 8) bs) = le32 (crc d)
                  \<and> take 4 (drop (n - 4) bs) = le32 (of_nat (length d))
               then (case bgzf_decode inflate crc (drop n bs) of
                       None \<Rightarrow> None
                     | Some r \<Rightarrow> Some (d @ r))
               else None)
      else None)"
  by pat_completeness auto
termination
  by (relation "measure (\<lambda>(inflate, crc, bs). length bs)") auto

section \<open>A store-only environment\<close>

text \<open>
  One environment, used to instantiate the theorems: a little-endian host whose
  compressor only stores. \<open>stored_blocks\<close> is DEFLATE with stored blocks alone
  (RFC 1951, 3.2.4: a header byte, LEN and its complement, at most 65535 bytes),
  \<open>stored_gzip\<close> wraps it in the ten-byte gzip header and the CRC32/ISIZE footer
  (RFC 1952), and a compressor call returns 0 when its output does not fit in the
  space it was given. \<open>stored_inflate\<close> reads back a stream of one stored block.
  \<open>no_compressor\<close> is the same host with \<^verbatim>\<open>libdeflate_alloc_compressor_ex\<close>
  returning NULL.
\<close>

definition crc_step :: "32 word \<Rightarrow> 32 word" where
  "crc_step c = (if bit c 0 then drop_bit 1 c XOR 0xEDB88320 else drop_bit 1 c)"

definition crc_byte :: "32 word \<Rightarrow> byte \<Rightarrow> 32 word" where
  "crc_byte c b = (crc_step ^^ 8) (c XOR ucast b)"

definition crc32_ieee :: "byte list \<Rightarrow> 32 word" where
  "crc32_ieee bs = NOT (foldl crc_byte (NOT 0) bs)"

function stored_blocks :: "byte list \<Rightarrow> byte list" where
  "stored_blocks bs =
     (if length bs \<le> 65535
      then [1] @ le16 (of_nat (length bs)) @ le16 (NOT (of_nat (length bs))) @ bs
      else [0] @ le16 65535 @ le16 0 @ take 65535 bs @ stored_blocks (drop 65535 bs))"
  by pat_completeness auto
termination
  by (relation "measure length") auto

definition stored_gzip :: "byte list \<Rightarrow> byte list" where
  "stored_gzip bs = [0x1f, 0x8b, 0x08, 0, 0, 0, 0, 0, 0, 0xff] @ stored_blocks bs
                    @ le32 (crc32_ieee bs) @ le32 (of_nat (length bs))"

definition fit :: "byte list \<Rightarrow> nat \<Rightarrow> byte list" where
  "fit out avail = (if length out \<le> avail then out else [])"

definition store_only :: env where
  "store_only = \<lparr>host = LittleEndian, junk = (\<lambda>a. 0), alloc_compressor_ex = (\<lambda>level. True),
                 deflate_compress = (\<lambda>level src avail. fit (stored_blocks src) avail),
                 gzip_compress = (\<lambda>level src avail. fit (stored_gzip src) avail),
                 crc32 = crc32_ieee\<rparr>"

definition no_compressor :: env where
  "no_compressor = store_only\<lparr>alloc_compressor_ex := (\<lambda>level. False)\<rparr>"

text \<open>The same compressor on a big-endian host, and on a host whose allocator knows the
  levels 0 to 12 only, as the header of libdeflate documents, and returns NULL for any
  other.\<close>

definition big_endian_host :: env where
  "big_endian_host = store_only\<lparr>host := BigEndian\<rparr>"

definition libdeflate_levels :: env where
  "libdeflate_levels = store_only\<lparr>alloc_compressor_ex := (\<lambda>level. 0 \<le> level \<and> level \<le> 12)\<rparr>"

fun stored_inflate :: "byte list \<Rightarrow> byte list option" where
  "stored_inflate (h # l0 # l1 # n0 # n1 # body) =
     (if h = 1 \<and> [l0, l1] = le16 (of_nat (length body)) then Some body else None)"
| "stored_inflate p = None"

section \<open>Packing, memory and arithmetic lemmas\<close>

lemma packInt16_little: "packInt16 LittleEndian v = le16 v"
  unfolding packInt16_def htole16_def object_u32_def le32_def le16_def
  apply (simp add: Let_def)
  apply (intro conjI; rule bit_word_eqI; auto simp add: bit_simps)
  done

lemma packInt16_big: "packInt16 BigEndian v = [0, 0]"
  unfolding packInt16_def htole16_def object_u32_def le32_def bswap_16_def
  apply (simp add: Let_def)
  apply (intro conjI; rule bit_word_eqI; auto simp add: bit_simps)
  done

lemma packInt32_le32: "packInt32 e v = le32 v"
  unfolding packInt32_def htole32_def object_u32_def le32_def bswap_32_def
  apply (cases e; simp add: Let_def)
  apply (intro conjI; rule bit_word_eqI; auto simp add: bit_simps)
  done

lemma length_packInt16 [simp]: "length (packInt16 e v) = 2"
  by (cases e) (simp_all add: packInt16_def object_u32_def le32_def Let_def)

lemma length_packInt32 [simp]: "length (packInt32 e v) = 4"
  by (simp add: packInt32_le32 le32_def)

lemma length_le16 [simp]: "length (le16 v) = 2"
  by (simp add: le16_def)

lemma length_le32 [simp]: "length (le32 v) = 4"
  by (simp add: le32_def)

lemma rd16_le16: "rd16 (le16 v) = unat v"
proof -
  have a: "unat (ucast v :: byte) = unat v mod 256"
    by (simp add: unsigned_ucast_eq take_bit_eq_mod)
  have b: "unat (ucast (drop_bit 8 v) :: byte) = unat v div 256"
  proof -
    have "unat v < 65536" using unsigned_less [of v, where ?'a = nat] by simp
    then have "unat v div 256 < 256" by simp
    then show ?thesis
      by (simp add: unsigned_ucast_eq take_bit_eq_mod unat_drop_bit_eq drop_bit_eq_div unat_div_distrib)
  qed
  show ?thesis by (simp add: rd16_def le16_def a b)
qed

lemma rd16_le16_of_nat: "n < 65536 \<Longrightarrow> rd16 (le16 (of_nat n)) = n"
  by (simp add: rd16_le16 unat_of_nat)

lemma avail_block: "size_t_sub (size_t_sub BGZIP_MAX_BLOCK_SIZE 18) 8 = 65510"
  by (simp add: size_t_sub_def BGZIP_MAX_BLOCK_SIZE_def)

lemma length_repalloc [simp]: "length (repalloc X buf n) = n"
  by (simp add: repalloc_def)

lemma take_repalloc: "k \<le> length buf \<Longrightarrow> k \<le> n \<Longrightarrow> take k (repalloc X buf n) = take k buf"
  by (simp add: repalloc_def)

lemma length_palloc [simp]: "length (palloc X n) = n"
  by (simp add: palloc_def)

section \<open>The encoder on a non-empty chunk\<close>

lemma block_nonempty:
  assumes "src \<noteq> []" and "length dst = BGZIP_MAX_BLOCK_SIZE"
  shows "bgzip_compress_block X dst BGZIP_MAX_BLOCK_SIZE src level =
     (if alloc_compressor_ex X level \<and> deflate_compress X level src 65510 \<noteq> []
      then Some (bgzf_block X level src @ drop (length (deflate_compress X level src 65510) + 26) dst,
                 length (deflate_compress X level src 65510) + 26)
      else None)"
proof -
  define p where "p = deflate_compress X level src 65510"
  define n where "n = length p"
  define g16 where "g16 = take 16 g_magic"
  define R where "R = (\<lambda>k. drop (k + n) dst)"
  have lg: "length g16 = 16" by (simp add: g16_def g_magic_def)
  have g18: "take 18 g_magic = g16 @ [0, 0]" by (simp add: g16_def g_magic_def)
  have l18: "length (take 18 dst) = 18" using assms by (simp add: BGZIP_MAX_BLOCK_SIZE_def)
  have s1: "memcpy dst 18 p n = take 18 dst @ p @ R 18"
    by (simp add: memcpy_def n_def R_def)
  have s2: "memcpy (take 18 dst @ p @ R 18) 0 g_magic 18 = g16 @ [0, 0] @ p @ R 18"
    using l18 by (simp add: memcpy_def g18)
  have s3: "memcpy (g16 @ [0, 0] @ p @ R 18) 16 b 2 = g16 @ b @ p @ R 18"
    if "length b = 2" for b
    using that lg by (simp add: memcpy_def)
  have s4: "memcpy (g16 @ b @ p @ R 18) (n + 18) c 4 = g16 @ b @ p @ c @ R 22"
    if "length b = 2" "length c = 4" for b c
    using that lg by (simp add: memcpy_def n_def R_def add.commute)
  have s5: "memcpy (g16 @ b @ p @ c @ R 22) (n + 22) i 4 = g16 @ b @ p @ c @ i @ R 26"
    if "length b = 2" "length c = 4" "length i = 4" for b c i
    using that lg by (simp add: memcpy_def n_def R_def add.commute)
  have e: "bgzf_block X level src = g16 @ packInt16 (host X) (of_nat (n + 25)) @ p
         @ packInt32 (host X) (crc32 X src) @ packInt32 (host X) (of_nat (length src))"
    by (simp add: bgzf_block_def Let_def p_def n_def g16_def)
  have w: "memcpy (memcpy (memcpy (memcpy (memcpy dst 18 p n) 0 g_magic 18) 16 b 2) (n + 18) c 4) (n + 22) i 4
            = g16 @ b @ p @ c @ i @ R 26"
    if "length b = 2" "length c = 4" "length i = 4" for b c i
    by (simp only: s1 s2 s3 [OF that(1)] s4 [OF that(1,2)] s5 [OF that])
  have main: "bgzip_compress_block X dst BGZIP_MAX_BLOCK_SIZE src level =
      (if alloc_compressor_ex X level \<and> p \<noteq> [] then
         Some (memcpy (memcpy (memcpy (memcpy (memcpy dst 18 p n) 0 g_magic 18) 16
                 (packInt16 (host X) (of_nat (n + 25))) 2)
                 (n + 18) (packInt32 (host X) (crc32 X src)) 4)
                 (n + 22) (packInt32 (host X) (of_nat (length src))) 4, n + 26)
       else None)"
    using assms(1)
    by (simp add: bgzip_compress_block_def Let_def BLOCK_HEADER_LENGTH_def
        BLOCK_FOOTER_LENGTH_def avail_block p_def n_def add.commute)
  show ?thesis
    unfolding main
    by (simp only: w length_packInt16 length_packInt32 e R_def p_def [symmetric] n_def [symmetric] add.commute append_assoc)
qed

section \<open>Slices and the loop\<close>

declare compress_loop.simps [simp del]

lemma slices_Nil: "0 < n \<Longrightarrow> slices n [] = []"
  by (simp add: slices_def)

lemma ceil_div_step:
  fixes m n :: nat
  assumes "0 < n" and "0 < m"
  shows "(m + n - 1) div n = Suc ((m - n + n - 1) div n)"
proof (cases "m \<le> n")
  case True
  have a: "(m + n - 1) div n = 1"
  proof (rule div_nat_eqI)
    show "n * 1 \<le> m + n - 1" using assms by simp
    show "m + n - 1 < n * Suc 1" using True assms by simp
  qed
  have b: "(m - n + n - 1) div n = 0"
    using True assms(1) by simp
  show ?thesis using a b by simp
next
  case False
  then have "m + n - 1 = (m - n + n - 1) + n" by arith
  then have "(m + n - 1) div n = ((m - n + n - 1) + n) div n" by simp
  also have "\<dots> = Suc ((m - n + n - 1) div n)"
    using assms(1) by (simp only: div_add_self2)
  finally show ?thesis .
qed

lemma slices_Cons:
  assumes "0 < n" and "xs \<noteq> []"
  shows "slices n xs = take n xs # slices n (drop n xs)"
proof -
  have k: "(length xs + n - 1) div n = Suc ((length xs - n + n - 1) div n)"
    using assms by (intro ceil_div_step) simp_all
  have u: "[0..<Suc k] = 0 # map Suc [0..<k]" for k
    by (simp add: upt_conv_Cons map_Suc_upt del: upt_Suc)
  show ?thesis
    unfolding slices_def k u
    by (simp add: o_def add.commute)
qed

lemma length_slices: "length (slices n xs) = (length xs + n - 1) div n"
  by (simp add: slices_def)

lemma concat_slices: "0 < n \<Longrightarrow> concat (slices n xs) = xs"
proof (induction xs rule: length_induct)
  case (1 xs)
  show ?case
  proof (cases "xs = []")
    case True
    then show ?thesis using 1 by (simp add: slices_Nil)
  next
    case False
    then have "length (drop n xs) < length xs" using 1(2) by simp
    then have "concat (slices n (drop n xs)) = drop n xs" using 1 by blast
    then show ?thesis using False 1(2) by (simp add: slices_Cons)
  qed
qed

lemma length_bgzf_block:
  "length (bgzf_block X level c) = length (deflate_compress X level c 65510) + 26"
  by (simp add: bgzf_block_def Let_def g_magic_def)

lemma bsize_big_endian:
  assumes "host X = BigEndian"
  shows "take 2 (drop 16 (bgzf_block X L ch)) = [0, 0]"
  by (simp add: bgzf_block_def Let_def assms packInt16_big g_magic_def)

lemma compress_loop_Nil: "compress_loop X level [] c cs = Inr (c, cs)"
  by (simp add: compress_loop.simps)

lemma compress_loop_step:
  assumes "inp \<noteq> []"
  shows "compress_loop X level inp c cs =
     (if alloc_compressor_ex X level \<and> deflate_compress X level (take BGZIP_BLOCK_SIZE inp) 65510 \<noteq> []
      then compress_loop X level (drop BGZIP_BLOCK_SIZE inp)
             (take cs (repalloc X c (cs + BGZIP_MAX_BLOCK_SIZE))
              @ bgzf_block X level (take BGZIP_BLOCK_SIZE inp)
              @ drop (length (bgzf_block X level (take BGZIP_BLOCK_SIZE inp)))
                  (drop cs (repalloc X c (cs + BGZIP_MAX_BLOCK_SIZE))))
             (cs + length (bgzf_block X level (take BGZIP_BLOCK_SIZE inp)))
      else Inl (BlockError (length inp)))"
proof -
  define isize where "isize = (if length inp < BGZIP_BLOCK_SIZE then length inp else BGZIP_BLOCK_SIZE)"
  define dst where "dst = drop cs (repalloc X c (cs + BGZIP_MAX_BLOCK_SIZE))"
  have t: "take isize inp = take BGZIP_BLOCK_SIZE inp" and d: "drop isize inp = drop BGZIP_BLOCK_SIZE inp"
    by (simp_all add: isize_def)
  have ne: "take BGZIP_BLOCK_SIZE inp \<noteq> []"
    using assms by (simp add: BGZIP_BLOCK_SIZE_def)
  have ld: "length dst = BGZIP_MAX_BLOCK_SIZE"
    by (simp add: dst_def)
  have u: "compress_loop X level inp c cs =
      (case bgzip_compress_block X dst BGZIP_MAX_BLOCK_SIZE (take BGZIP_BLOCK_SIZE inp) level of
         None \<Rightarrow> Inl (BlockError (length inp))
       | Some (dst', dlen) \<Rightarrow>
           compress_loop X level (drop BGZIP_BLOCK_SIZE inp)
             (take cs (repalloc X c (cs + BGZIP_MAX_BLOCK_SIZE)) @ dst') (cs + dlen))"
  proof -
    have "compress_loop X level inp c cs =
      (case bgzip_compress_block X dst BGZIP_MAX_BLOCK_SIZE (take isize inp) level of
         None \<Rightarrow> Inl (BlockError (length inp))
       | Some (dst', dlen) \<Rightarrow>
           compress_loop X level (drop isize inp)
             (take cs (repalloc X c (cs + BGZIP_MAX_BLOCK_SIZE)) @ dst') (cs + dlen))"
      using assms
      apply (subst compress_loop.simps)
      apply (simp only: Let_def flip: isize_def dst_def)
      apply simp
      done
    then show ?thesis
      by (simp only: t d)
  qed
  show ?thesis
    unfolding u block_nonempty [OF ne ld]
    by (simp add: length_bgzf_block dst_def)
qed

lemma compress_loop_Inr:
  "compress_loop X level inp c cs = Inr (buf, n) \<Longrightarrow> cs \<le> length c \<Longrightarrow>
     n \<le> length buf \<and>
     take n buf = take cs c @ concat (map (bgzf_block X level) (slices BGZIP_BLOCK_SIZE inp))"
proof (induction inp arbitrary: c cs rule: length_induct)
  case (1 inp)
  have B: "0 < BGZIP_BLOCK_SIZE" by (simp add: BGZIP_BLOCK_SIZE_def)
  show ?case
  proof (cases "inp = []")
    case True
    then show ?thesis using 1(2,3) by (simp add: compress_loop_Nil slices_Nil B)
  next
    case False
    define blk where "blk = bgzf_block X level (take BGZIP_BLOCK_SIZE inp)"
    define c' where "c' = take cs (repalloc X c (cs + BGZIP_MAX_BLOCK_SIZE)) @ blk
              @ drop (length blk) (drop cs (repalloc X c (cs + BGZIP_MAX_BLOCK_SIZE)))"
    have rec: "compress_loop X level (drop BGZIP_BLOCK_SIZE inp) c' (cs + length blk) = Inr (buf, n)"
      using 1(2) unfolding compress_loop_step [OF False] blk_def c'_def
      by (simp split: if_splits)
    have shorter: "length (drop BGZIP_BLOCK_SIZE inp) < length inp"
      using False B by simp
    have tk: "take cs (repalloc X c (cs + BGZIP_MAX_BLOCK_SIZE)) = take cs c"
      using 1(3) by (simp add: take_repalloc)
    have lc: "cs + length blk \<le> length c'"
      by (simp add: c'_def)
    have pre: "take (cs + length blk) c' = take cs c @ blk"
      using 1(3) by (simp add: c'_def tk)
    from 1(1) shorter rec lc
    have "n \<le> length buf \<and> take n buf = take (cs + length blk) c'
        @ concat (map (bgzf_block X level) (slices BGZIP_BLOCK_SIZE (drop BGZIP_BLOCK_SIZE inp)))"
      by blast
    then have "n \<le> length buf \<and> take n buf = (take cs c @ blk)
        @ concat (map (bgzf_block X level) (slices BGZIP_BLOCK_SIZE (drop BGZIP_BLOCK_SIZE inp)))"
      by (simp only: pre)
    then show ?thesis
      unfolding slices_Cons [OF B False] blk_def by simp
  qed
qed

lemma compress_loop_Inl:
  "compress_loop X level inp c cs = Inl e \<Longrightarrow>
     \<exists>k. e = BlockError k \<and> 0 < k \<and> k \<le> length inp \<and> BGZIP_BLOCK_SIZE dvd (length inp - k)"
proof (induction inp arbitrary: c cs rule: length_induct)
  case (1 inp)
  have B: "0 < BGZIP_BLOCK_SIZE" by (simp add: BGZIP_BLOCK_SIZE_def)
  show ?case
  proof (cases "inp = []")
    case True
    then show ?thesis using 1(2) by (simp add: compress_loop_Nil)
  next
    case False
    show ?thesis
    proof (cases "alloc_compressor_ex X level \<and> deflate_compress X level (take BGZIP_BLOCK_SIZE inp) 65510 \<noteq> []")
      case True
      have shorter: "length (drop BGZIP_BLOCK_SIZE inp) < length inp"
        using False B by simp
      from 1(2) True obtain c' cs' where "compress_loop X level (drop BGZIP_BLOCK_SIZE inp) c' cs' = Inl e"
        unfolding compress_loop_step [OF False] by auto
      with 1(1) shorter obtain k where k: "e = BlockError k" "0 < k" "k \<le> length (drop BGZIP_BLOCK_SIZE inp)"
          "BGZIP_BLOCK_SIZE dvd (length (drop BGZIP_BLOCK_SIZE inp) - k)"
        by blast
      have "length inp - k = (length inp - BGZIP_BLOCK_SIZE - k) + BGZIP_BLOCK_SIZE"
        using k(2,3) by simp
      then have "BGZIP_BLOCK_SIZE dvd (length inp - k)"
        using k(4) by simp
      then show ?thesis using k by auto
    next
      case F: False
      then have "e = BlockError (length inp)"
        using 1(2) unfolding compress_loop_step [OF False] by auto
      then show ?thesis using False by simp
    qed
  qed
qed

lemma compress_loop_total:
  assumes "alloc_compressor_ex X level"
    and "\<And>src. src \<noteq> [] \<Longrightarrow> length src \<le> BGZIP_BLOCK_SIZE \<Longrightarrow> deflate_compress X level src 65510 \<noteq> []"
  shows "\<exists>buf n. compress_loop X level inp c cs = Inr (buf, n)"
proof (induction inp arbitrary: c cs rule: length_induct)
  case (1 inp)
  have B: "0 < BGZIP_BLOCK_SIZE" by (simp add: BGZIP_BLOCK_SIZE_def)
  show ?case
  proof (cases "inp = []")
    case True
    then show ?thesis by (simp add: compress_loop_Nil)
  next
    case False
    have ne: "take BGZIP_BLOCK_SIZE inp \<noteq> []" using False B by simp
    have "deflate_compress X level (take BGZIP_BLOCK_SIZE inp) 65510 \<noteq> []"
      by (rule assms(2) [OF ne]) simp
    moreover have "length (drop BGZIP_BLOCK_SIZE inp) < length inp"
      using False B by simp
    ultimately show ?thesis
      unfolding compress_loop_step [OF False] using assms(1) 1 by simp
  qed
qed

section \<open>Reading blocks back\<close>

declare bgzf_decode.simps [simp del]

lemma rd16_append: "length a = 2 \<Longrightarrow> rd16 (a @ b) = rd16 a"
  by (cases a; cases "tl a") (auto simp: rd16_def)

lemma bgzf_decode_block:
  assumes le: "host X = LittleEndian"
    and bound: "length (deflate_compress X level c 65510) \<le> 65510"
    and inv: "inflate (deflate_compress X level c 65510) = Some c"
  shows "bgzf_decode inflate (crc32 X) (bgzf_block X level c @ rest) =
           (case bgzf_decode inflate (crc32 X) rest of None \<Rightarrow> None | Some r \<Rightarrow> Some (c @ r))"
proof -
  define p where "p = deflate_compress X level c 65510"
  define n where "n = length p"
  define g16 where "g16 = take 16 g_magic"
  define F where "F = le32 (crc32 X c) @ le32 (of_nat (length c)) @ rest"
  define z where "z = le16 (of_nat (n + 25))"
  have lg: "length g16 = 16" by (simp add: g16_def g_magic_def)
  have n: "n + 25 < 65536" using bound by (simp add: n_def p_def)
  have lz: "length z = 2" by (simp add: z_def)
  have ne: "g16 \<noteq> []" using lg by auto
  have rz: "rd16 z = n + 25" unfolding z_def using n by (rule rd16_le16_of_nat)
  have bs: "bgzf_block X level c @ rest = g16 @ z @ p @ F"
    by (simp add: bgzf_block_def Let_def le packInt16_little packInt32_le32 p_def n_def g16_def F_def z_def)
  have r: "rd16 (drop 16 (g16 @ z @ p @ F)) + 1 = n + 26"
    using lg lz by (simp add: rd16_append rz)
  have pay: "take (n + 26 - 26) (drop 18 (g16 @ z @ p @ F)) = p"
    using lg lz by (simp add: n_def)
  have f1: "take 4 (drop (n + 26 - 8) (g16 @ z @ p @ F)) = le32 (crc32 X c)"
    using lg lz by (simp add: n_def F_def)
  have f2: "take 4 (drop (n + 26 - 4) (g16 @ z @ p @ F)) = le32 (of_nat (length c))"
    using lg lz by (simp add: n_def F_def)
  have rs: "drop (n + 26) (g16 @ z @ p @ F) = rest"
    using lg lz by (simp add: n_def F_def)
  have hd: "take 16 (g16 @ z @ p @ F) = take 16 g_magic"
    using lg by (simp add: g16_def)
  have len: "length (g16 @ z @ p @ F) = n + 26 + length rest"
    using lg lz by (simp add: n_def F_def)
  show ?thesis
    unfolding bs
    apply (subst bgzf_decode.simps)
    apply (simp only: r pay f1 f2 rs hd len Let_def inv [folded p_def])
    apply (simp add: ne)
    done
qed

lemma bgzf_decode_blocks:
  assumes le: "host X = LittleEndian"
    and ok: "\<And>c. c \<in> set cs \<Longrightarrow> length (deflate_compress X level c 65510) \<le> 65510
                  \<and> inflate (deflate_compress X level c 65510) = Some c"
  shows "bgzf_decode inflate (crc32 X) (concat (map (bgzf_block X level) cs)) = Some (concat cs)"
  using ok
proof (induction cs)
  case Nil
  show ?case by (simp add: bgzf_decode.simps)
next
  case (Cons c cs)
  then show ?case
    by (simp add: bgzf_decode_block [OF le])
qed

lemma slice_index:
  fixes n :: nat
  assumes "0 < n" and "i < (m + n - 1) div n"
  shows "i * n < m"
proof -
  have "Suc i \<le> (m + n - 1) div n" using assms(2) by simp
  then have "Suc i * n \<le> m + n - 1"
    using assms(1) by (simp only: less_eq_div_iff_mult_less_eq)
  then show ?thesis using assms(1) by simp
qed

lemma set_slices:
  assumes "0 < n" and "c \<in> set (slices n xs)"
  shows "c \<noteq> [] \<and> length c \<le> n"
proof -
  from assms(2) obtain i where i: "i < (length xs + n - 1) div n" and c: "c = take n (drop (i * n) xs)"
    by (auto simp: slices_def)
  have "i * n < length xs" using slice_index [OF assms(1) i] .
  then show ?thesis using assms(1) by (simp add: c)
qed

section \<open>The store-only environment\<close>

declare stored_blocks.simps [simp del]

lemma length_stored_blocks_short:
  "length bs \<le> 65535 \<Longrightarrow> stored_blocks bs = [1] @ le16 (of_nat (length bs)) @ le16 (NOT (of_nat (length bs))) @ bs"
  by (subst stored_blocks.simps) simp

lemma store_only_simps [simp]:
  "host store_only = LittleEndian" "alloc_compressor_ex store_only level"
  "deflate_compress store_only level src avail = fit (stored_blocks src) avail"
  "gzip_compress store_only level src avail = fit (stored_gzip src) avail"
  "crc32 store_only = crc32_ieee"
  by (simp_all add: store_only_def)

lemma no_compressor_simps [simp]:
  "\<not> alloc_compressor_ex no_compressor level"
  by (simp_all add: no_compressor_def)

lemma big_endian_host_simps [simp]:
  "host big_endian_host = BigEndian" "alloc_compressor_ex big_endian_host level"
  "deflate_compress big_endian_host level src avail = fit (stored_blocks src) avail"
  "crc32 big_endian_host = crc32_ieee"
  by (simp_all add: big_endian_host_def store_only_def)

lemma libdeflate_levels_simps [simp]:
  "alloc_compressor_ex libdeflate_levels level = (0 \<le> level \<and> level \<le> 12)"
  by (simp add: libdeflate_levels_def)

lemma stored_one_byte:
  "fit (stored_blocks [0x41]) 65510 = stored_blocks [0x41]" "length (stored_blocks [0x41]) = 6"
  "stored_blocks [0x41] \<noteq> []"
  by (simp_all add: fit_def length_stored_blocks_short)

lemma length_fit: "length (fit out avail) \<le> avail"
  by (simp add: fit_def)

lemma length_stored_blocks_ge: "length bs + 5 \<le> length (stored_blocks bs)"
proof (induction bs rule: length_induct)
  case (1 bs)
  show ?case
  proof (cases "length bs \<le> 65535")
    case True
    then show ?thesis by (simp add: length_stored_blocks_short)
  next
    case False
    then have "length (drop 65535 bs) < length bs" by simp
    then have "length (drop 65535 bs) + 5 \<le> length (stored_blocks (drop 65535 bs))"
      using 1 by blast
    then show ?thesis using False
      by (subst stored_blocks.simps) simp
  qed
qed

lemma fit_stored_nonempty:
  "fit (stored_blocks src) avail \<noteq> [] \<Longrightarrow> fit (stored_blocks src) avail = stored_blocks src \<and> length src + 5 \<le> avail"
  using length_stored_blocks_ge [of src] by (auto simp: fit_def split: if_splits)

lemma stored_inflate_blocks:
  "length src \<le> 65535 \<Longrightarrow> stored_inflate (stored_blocks src) = Some src"
  by (simp add: length_stored_blocks_short le16_def)

lemma store_only_inverse:
  assumes "deflate_compress store_only level src 65510 \<noteq> []"
  shows "stored_inflate (deflate_compress store_only level src 65510) = Some src"
proof -
  from assms have "fit (stored_blocks src) 65510 = stored_blocks src \<and> length src + 5 \<le> 65510"
    using fit_stored_nonempty [of src 65510] by simp
  then show ?thesis by (simp add: stored_inflate_blocks)
qed

lemma store_only_succeeds:
  assumes "length src \<le> BGZIP_BLOCK_SIZE"
  shows "deflate_compress store_only level src 65510 \<noteq> []"
  using assms by (simp add: fit_def length_stored_blocks_short BGZIP_BLOCK_SIZE_def)

lemma length_stored_gzip_64k: "length (stored_gzip (replicate 65536 0)) = 65564"
proof -
  have "stored_blocks (replicate 65536 0) = [0] @ le16 65535 @ le16 0 @ replicate 65535 0 @ stored_blocks [0]"
    by (subst stored_blocks.simps) simp
  then show ?thesis
    by (simp add: stored_gzip_def length_stored_blocks_short)
qed

section \<open>Argument validation\<close>

lemma level_ok_loop_error:
  assumes "pg_bgzip_compress X nargs (Some B) (Some L) arg2 = Inl e"
    and "nargs = 2 \<or> nargs = 3" and "- 1 \<le> L" and "L \<le> 9"
  shows "\<exists>k. e = BlockError k \<and> 0 < k \<and> k \<le> length B"
proof -
  from assms have "compress_loop X L B (palloc X 0) 0 = Inl e"
    by (auto simp: pg_bgzip_compress_def Let_def split: sum.splits if_splits prod.splits)
  then show ?thesis using compress_loop_Inl by blast
qed

text \<open>
  Claim C10. A third argument that is SQL NULL is not rejected the way a NULL buffer or
  level is: the call with three arguments and a NULL flag returns what the call with the
  flag \<open>false\<close> returns, and what the call with two arguments returns; for a present
  buffer and level it never ends in "Null arguments not accepted".
\<close>

theorem null_append_eof_is_false:
  "pg_bgzip_compress X 3 arg0 arg1 None = pg_bgzip_compress X 3 arg0 arg1 (Some False)
   \<and> pg_bgzip_compress X 3 arg0 arg1 None = pg_bgzip_compress X 2 arg0 arg1 arg2
   \<and> pg_bgzip_compress X 3 (Some B) (Some L) None \<noteq> Inl NullArgument"
proof -
  have "pg_bgzip_compress X 3 (Some B) (Some L) None \<noteq> Inl NullArgument"
  proof
    assume a: "pg_bgzip_compress X 3 (Some B) (Some L) None = Inl NullArgument"
    show False
    proof (cases "- 1 \<le> L \<and> L \<le> 9")
      case True
      then show False using level_ok_loop_error [OF a] by auto
    next
      case False
      then show False using a by (auto simp: pg_bgzip_compress_def)
    qed
  qed
  moreover have "pg_bgzip_compress X 3 arg0 arg1 None = pg_bgzip_compress X 3 arg0 arg1 (Some False)"
    by (cases arg0; cases arg1) (simp_all add: pg_bgzip_compress_def Let_def)
  moreover have "pg_bgzip_compress X 3 arg0 arg1 None = pg_bgzip_compress X 2 arg0 arg1 arg2"
    by (cases arg0; cases arg1) (simp_all add: pg_bgzip_compress_def Let_def)
  ultimately show ?thesis by simp
qed

text \<open>The three calls on the empty buffer at level 6.\<close>

theorem null_append_eof_is_false_witness:
  "pg_bgzip_compress store_only 3 (Some []) (Some 6) None = Inr (Bytea [])
   \<and> pg_bgzip_compress store_only 3 (Some []) (Some 6) (Some False) = Inr (Bytea [])
   \<and> pg_bgzip_compress store_only 2 (Some []) (Some 6) (Some True) = Inr (Bytea [])"
proof -
  note t = null_append_eof_is_false [of store_only "Some []" "Some 6" "Some True" "[]" 6]
  have a: "pg_bgzip_compress store_only 3 (Some []) (Some 6) None = Inr (Bytea [])"
    by (simp add: pg_bgzip_compress_def compress_loop_Nil palloc_def)
  note b = t [THEN conjunct1, symmetric]
  note c = t [THEN conjunct2, THEN conjunct1, symmetric]
  show ?thesis
    unfolding b c using a by simp
qed

text \<open>
  Claim C9. Both entry points end in an \<open>InvalidArgument\<close> error when the buffer or the
  level is NULL or the level lies outside \<open>-1..9\<close> (the block path also when the
  argument count is not 2 or 3). The error is the same in every environment, so no
  allocation and no compressor call decides it, and an error exit carries no output.
  A level within \<open>-1..9\<close>, such as -1 or 6, gets past validation: the block path can
  then only fail in the block encoder, and the gzip path returns.
\<close>

theorem invalid_arguments_rejected:
  "((nargs \<noteq> 2 \<and> nargs \<noteq> 3) \<or> arg0 = None \<or> arg1 = None \<or> (\<exists>l. arg1 = Some l \<and> (l < - 1 \<or> 9 < l))
      \<longrightarrow> (\<exists>e. kind e = InvalidArgument \<and> (\<forall>Y. pg_bgzip_compress Y nargs arg0 arg1 arg2 = Inl e)))
   \<and> (arg0 = None \<or> arg1 = None \<or> (\<exists>l. arg1 = Some l \<and> (l < - 1 \<or> 9 < l))
      \<longrightarrow> (\<exists>e. kind e = InvalidArgument \<and> (\<forall>Y. pg_bgzip_gzip_compress Y arg0 arg1 = Inl e)))
   \<and> ((nargs = 2 \<or> nargs = 3) \<and> - 1 \<le> L \<and> L \<le> 9
      \<longrightarrow> (\<forall>e. pg_bgzip_compress X nargs (Some B) (Some L) arg2 = Inl e \<longrightarrow> kind e = CompressionFailure)
          \<and> (\<exists>r. pg_bgzip_gzip_compress X (Some B) (Some L) = Inr r))"
proof (intro conjI impI)
  assume a: "(nargs \<noteq> 2 \<and> nargs \<noteq> 3) \<or> arg0 = None \<or> arg1 = None \<or> (\<exists>l. arg1 = Some l \<and> (l < - 1 \<or> 9 < l))"
  show "\<exists>e. kind e = InvalidArgument \<and> (\<forall>Y. pg_bgzip_compress Y nargs arg0 arg1 arg2 = Inl e)"
  proof (cases "nargs \<noteq> 2 \<and> nargs \<noteq> 3")
    case True
    then have "\<forall>Y. pg_bgzip_compress Y nargs arg0 arg1 arg2 = Inl (InvalidNargs nargs)"
      by (simp add: pg_bgzip_compress_def)
    then show ?thesis by (intro exI [of _ "InvalidNargs nargs"]) simp
  next
    case n: False
    show ?thesis
    proof (cases "arg0 = None \<or> arg1 = None")
      case True
      then have "\<forall>Y. pg_bgzip_compress Y nargs arg0 arg1 arg2 = Inl NullArgument"
        using n by (auto simp: pg_bgzip_compress_def split: option.splits)
      then show ?thesis by (intro exI [of _ NullArgument]) simp
    next
      case False
      with a n obtain b l where "arg0 = Some b" "arg1 = Some l" "l < - 1 \<or> 9 < l" by auto
      then have "\<forall>Y. pg_bgzip_compress Y nargs arg0 arg1 arg2 = Inl (InvalidLevel l)"
        using n by (auto simp: pg_bgzip_compress_def)
      then show ?thesis by (intro exI [of _ "InvalidLevel l"]) simp
    qed
  qed
next
  assume a: "arg0 = None \<or> arg1 = None \<or> (\<exists>l. arg1 = Some l \<and> (l < - 1 \<or> 9 < l))"
  show "\<exists>e. kind e = InvalidArgument \<and> (\<forall>Y. pg_bgzip_gzip_compress Y arg0 arg1 = Inl e)"
  proof (cases "arg0 = None \<or> arg1 = None")
    case True
    then have "\<forall>Y. pg_bgzip_gzip_compress Y arg0 arg1 = Inl NullArgument"
      by (auto simp: pg_bgzip_gzip_compress_def split: option.splits)
    then show ?thesis by (intro exI [of _ NullArgument]) simp
  next
    case False
    with a obtain b l where "arg0 = Some b" "arg1 = Some l" "l < - 1 \<or> 9 < l" by auto
    then have "\<forall>Y. pg_bgzip_gzip_compress Y arg0 arg1 = Inl (InvalidLevel l)"
      by (auto simp: pg_bgzip_gzip_compress_def)
    then show ?thesis by (intro exI [of _ "InvalidLevel l"]) simp
  qed
next
  assume a: "(nargs = 2 \<or> nargs = 3) \<and> - 1 \<le> L \<and> L \<le> 9"
  show "\<forall>e. pg_bgzip_compress X nargs (Some B) (Some L) arg2 = Inl e \<longrightarrow> kind e = CompressionFailure"
    using level_ok_loop_error [of X nargs B L arg2] a by auto
next
  assume a: "(nargs = 2 \<or> nargs = 3) \<and> - 1 \<le> L \<and> L \<le> 9"
  then show "\<exists>r. pg_bgzip_gzip_compress X (Some B) (Some L) = Inr r"
    by (auto simp: pg_bgzip_gzip_compress_def Let_def)
qed

text \<open>Level 10 is rejected by both entry points, level -1 is not.\<close>

theorem invalid_arguments_rejected_witness:
  "(\<exists>e. kind e = InvalidArgument \<and> (\<forall>Y. pg_bgzip_compress Y 3 (Some [0x41]) (Some 10) None = Inl e))
   \<and> (\<exists>e. kind e = InvalidArgument \<and> (\<forall>Y. pg_bgzip_gzip_compress Y (Some [0x41]) (Some 10) = Inl e))
   \<and> \<not> (\<exists>e. pg_bgzip_compress store_only 3 (Some [0x41]) (Some (- 1)) None = Inl e
              \<and> kind e = InvalidArgument)
   \<and> (\<exists>r. pg_bgzip_gzip_compress store_only (Some [0x41]) (Some (- 1)) = Inr r)"
  using invalid_arguments_rejected [of 3 "Some [0x41]" "Some 10" None "- 1" store_only "[0x41]"]
  by auto

section \<open>The output of the driver\<close>

lemma compress_loop_Inr_payloads:
  "compress_loop X level inp c cs = Inr (buf, n) \<Longrightarrow> ch \<in> set (slices BGZIP_BLOCK_SIZE inp) \<Longrightarrow>
     alloc_compressor_ex X level \<and> deflate_compress X level ch 65510 \<noteq> []"
proof (induction inp arbitrary: c cs rule: length_induct)
  case (1 inp)
  have B: "0 < BGZIP_BLOCK_SIZE" by (simp add: BGZIP_BLOCK_SIZE_def)
  show ?case
  proof (cases "inp = []")
    case True
    then show ?thesis using 1(3) by (simp add: slices_Nil B)
  next
    case False
    have ok: "alloc_compressor_ex X level \<and> deflate_compress X level (take BGZIP_BLOCK_SIZE inp) 65510 \<noteq> []"
      using 1(2) unfolding compress_loop_step [OF False] by (simp split: if_splits)
    then obtain c' cs' where rec: "compress_loop X level (drop BGZIP_BLOCK_SIZE inp) c' cs' = Inr (buf, n)"
      using 1(2) unfolding compress_loop_step [OF False] by simp
    have shorter: "length (drop BGZIP_BLOCK_SIZE inp) < length inp"
      using False B by simp
    from 1(3) have "ch = take BGZIP_BLOCK_SIZE inp \<or> ch \<in> set (slices BGZIP_BLOCK_SIZE (drop BGZIP_BLOCK_SIZE inp))"
      by (simp add: slices_Cons [OF B False])
    then show ?thesis
      using ok 1(1) shorter rec by blast
  qed
qed

lemma pg_bgzip_compress_valid:
  assumes "- 1 \<le> L" and "L \<le> 9"
  shows "pg_bgzip_compress X 3 (Some B) (Some L) (Some eof) =
     (case compress_loop X L B [] 0 of
        Inl e \<Rightarrow> Inl e
      | Inr (c, n) \<Rightarrow> Inr (Bytea (if eof then take n c @ eof_marker else take n c)))"
proof (cases "compress_loop X L B [] 0")
  case (Inl e)
  then show ?thesis using assms by (simp add: pg_bgzip_compress_def palloc_def)
next
  case (Inr r)
  obtain c n where r: "r = (c, n)" by (cases r)
  have n: "n \<le> length c"
    using compress_loop_Inr [of X L B "[]" 0 c n] Inr r by simp
  have "take (n + 28) (memcpy (repalloc X c (n + 28)) n eof_marker 28) = take n c @ eof_marker"
    using n by (simp add: memcpy_def take_repalloc eof_marker_def)
  then show ?thesis
    using assms Inr r by (simp add: pg_bgzip_compress_def palloc_def Let_def)
qed

lemma blocked_output:
  assumes "pg_bgzip_compress X 3 (Some B) (Some L) (Some eof) = Inr d"
  shows "d = Bytea (concat (map (bgzf_block X L) (slices BGZIP_BLOCK_SIZE B))
                    @ (if eof then eof_marker else []))
         \<and> - 1 \<le> L \<and> L \<le> 9
         \<and> (\<forall>ch \<in> set (slices BGZIP_BLOCK_SIZE B).
               alloc_compressor_ex X L \<and> deflate_compress X L ch 65510 \<noteq> [])"
proof -
  have L: "- 1 \<le> L \<and> L \<le> 9"
    using assms by (auto simp: pg_bgzip_compress_def split: if_splits)
  with assms obtain c n where loop: "compress_loop X L B [] 0 = Inr (c, n)"
    and d: "d = Bytea (if eof then take n c @ eof_marker else take n c)"
    by (auto simp: pg_bgzip_compress_valid split: sum.splits)
  have "take n c = concat (map (bgzf_block X L) (slices BGZIP_BLOCK_SIZE B))"
    using compress_loop_Inr [OF loop] by simp
  then show ?thesis
    using d L compress_loop_Inr_payloads [OF loop] by auto
qed

lemma le32_zero:
  assumes "le32 v = [0, 0, 0, 0]"
  shows "v = 0"
proof (rule bit_word_eqI)
  fix n
  assume n: "n < LENGTH(32)"
  from assms have a: "(ucast v :: byte) = 0" and b: "(ucast (drop_bit 8 v) :: byte) = 0"
    and c: "(ucast (drop_bit 16 v) :: byte) = 0" and d: "(ucast (drop_bit 24 v) :: byte) = 0"
    by (simp_all add: le32_def)
  have "\<not> bit v n"
  proof (cases "n < 8")
    case True
    have "\<not> bit (ucast v :: byte) n" by (simp add: a)
    then show ?thesis using True by (simp add: bit_simps)
  next
    case n8: False
    show ?thesis
    proof (cases "n < 16")
      case True
      have "\<not> bit (ucast (drop_bit 8 v) :: byte) (n - 8)" by (simp add: b)
      then show ?thesis using True n8 by (simp add: bit_simps)
    next
      case n16: False
      show ?thesis
      proof (cases "n < 24")
        case True
        have "\<not> bit (ucast (drop_bit 16 v) :: byte) (n - 16)" by (simp add: c)
        then show ?thesis using True n16 by (simp add: bit_simps)
      next
        case False
        have "\<not> bit (ucast (drop_bit 24 v) :: byte) (n - 24)" by (simp add: d)
        then show ?thesis using False n by (simp add: bit_simps)
      qed
    qed
  qed
  then show "bit v n = bit (0 :: 32 word) n" by simp
qed

lemma data_block_not_marker:
  assumes "ch \<noteq> []" and "length ch \<le> BGZIP_BLOCK_SIZE"
  shows "bgzf_block X L ch \<noteq> eof_marker"
proof
  assume e: "bgzf_block X L ch = eof_marker"
  define h where "h = take 16 g_magic @ packInt16 (host X) (of_nat (length (deflate_compress X L ch 65510) + 25))
      @ deflate_compress X L ch 65510 @ le32 (crc32 X ch)"
  have b: "bgzf_block X L ch = h @ le32 (of_nat (length ch))"
    by (simp add: bgzf_block_def Let_def packInt32_le32 h_def)
  have m: "eof_marker = take 24 eof_marker @ [0, 0, 0, 0]"
    by (simp add: eof_marker_def)
  have "length h = 24"
    using arg_cong [OF e, of length] unfolding b by (simp add: eof_marker_def)
  then have "le32 (of_nat (length ch)) = [0, 0, 0, 0]"
    using e unfolding b by (subst (asm) m) simp
  then have "(of_nat (length ch) :: 32 word) = 0" by (rule le32_zero)
  then have "unat (of_nat (length ch) :: 32 word) = 0" by simp
  then have "length ch mod 2 ^ 32 = 0" by (simp add: unat_of_nat)
  then show False using assms by (simp add: BGZIP_BLOCK_SIZE_def)
qed

text \<open>
  Claim C5. With the flag set the driver returns what it returns without the flag,
  followed by the 28 bytes of \<open>eof_marker\<close>: an error stays the same error, an output
  \<open>out\<close> becomes \<open>out @ eof_marker\<close>. So the marker is the last thing in the output
  and is appended once. The driver never returns SQL NULL, and the block of a
  non-empty chunk (the driver encodes no other) is never the marker.
\<close>

theorem eof_marker_appended:
  "(\<forall>e. pg_bgzip_compress X 3 arg0 arg1 (Some False) = Inl e
        \<longrightarrow> pg_bgzip_compress X 3 arg0 arg1 (Some True) = Inl e)
   \<and> (\<forall>out. pg_bgzip_compress X 3 arg0 arg1 (Some False) = Inr (Bytea out)
        \<longrightarrow> pg_bgzip_compress X 3 arg0 arg1 (Some True) = Inr (Bytea (out @ eof_marker)))
   \<and> pg_bgzip_compress X 3 arg0 arg1 (Some False) \<noteq> Inr Null
   \<and> length eof_marker = 28
   \<and> (ch \<noteq> [] \<and> length ch \<le> BGZIP_BLOCK_SIZE \<longrightarrow> bgzf_block X L ch \<noteq> eof_marker)"
proof -
  have "(\<forall>e. pg_bgzip_compress X 3 arg0 arg1 (Some False) = Inl e
        \<longrightarrow> pg_bgzip_compress X 3 arg0 arg1 (Some True) = Inl e)
   \<and> (\<forall>out. pg_bgzip_compress X 3 arg0 arg1 (Some False) = Inr (Bytea out)
        \<longrightarrow> pg_bgzip_compress X 3 arg0 arg1 (Some True) = Inr (Bytea (out @ eof_marker)))
   \<and> pg_bgzip_compress X 3 arg0 arg1 (Some False) \<noteq> Inr Null
   \<and> length eof_marker = 28"
  proof (cases "\<exists>B K. arg0 = Some B \<and> arg1 = Some K \<and> - 1 \<le> K \<and> K \<le> 9")
    case True
    then obtain B K where a: "arg0 = Some B" "arg1 = Some K" and K: "- 1 \<le> K" "K \<le> 9"
      by blast
    show ?thesis
      unfolding a pg_bgzip_compress_valid [OF K]
      by (auto simp: eof_marker_def split: sum.splits)
  next
    case False
    then show ?thesis
      by (cases arg0; cases arg1) (auto simp: pg_bgzip_compress_def eof_marker_def Let_def)
  qed
  then show ?thesis
    using data_block_not_marker [of ch X L] by blast
qed

text \<open>The empty buffer: no output without the flag, the marker alone with it. The block
  of one byte is not the marker.\<close>

theorem eof_marker_appended_witness:
  "pg_bgzip_compress store_only 3 (Some []) (Some 6) (Some False) = Inr (Bytea [])
   \<and> pg_bgzip_compress store_only 3 (Some []) (Some 6) (Some True) = Inr (Bytea eof_marker)
   \<and> bgzf_block store_only 6 [0x41] \<noteq> eof_marker"
proof -
  have a: "pg_bgzip_compress store_only 3 (Some []) (Some 6) (Some False) = Inr (Bytea [])"
    by (simp add: pg_bgzip_compress_valid compress_loop_Nil)
  then show ?thesis
    using eof_marker_appended [of store_only "Some []" "Some 6" "[0x41]" 6]
    by (simp add: BGZIP_BLOCK_SIZE_def)
qed

section \<open>The blocks of the stream\<close>




text \<open>
  The block length and BSIZE on a little-endian host. The driver calls the encoder on a
  region of \<open>0x10000\<close> bytes with that capacity. When the encoder returns 0, and the
  compressor kept to the 65510 bytes it was offered, the block is at most \<open>0x10000\<close>
  bytes long, the bytes at offsets 16 and 17 read as a little-endian number are its
  length minus one, and its length is 18 + payload + 8 (the payload of the empty chunk
  is the two fixed bytes).
\<close>

lemma bsize_little_endian:
  assumes "bgzip_compress_block X dst BGZIP_MAX_BLOCK_SIZE src L = Some (dst', n)"
    and "length dst = BGZIP_MAX_BLOCK_SIZE"
    and "host X = LittleEndian"
    and "length (deflate_compress X L src 65510) \<le> 65510"
  shows "n \<le> 0x10000
       \<and> unat (dst' ! 16) + 256 * unat (dst' ! 17) = n - 1
       \<and> n = 18 + (if src = [] then 2 else length (deflate_compress X L src 65510)) + 8"
proof (cases "src = []")
  case True
  have "memcpy (memcpy dst 0 g_magic 16) 16 empty_tail 12 = take 16 g_magic @ empty_tail @ drop 28 dst"
    using assms(2) by (simp add: memcpy_def g_magic_def empty_tail_def BGZIP_MAX_BLOCK_SIZE_def)
  then have "dst' = take 16 g_magic @ empty_tail @ drop 28 dst" and "n = 28"
    using assms(1) True by (auto simp: bgzip_compress_block_def BGZIP_MAX_BLOCK_SIZE_def Let_def)
  then show ?thesis using True
    by (simp add: g_magic_def empty_tail_def)
next
  case False
  define p where "p = deflate_compress X L src 65510"
  define z where "z = le16 (of_nat (length p + 25))"
  have r: "dst' = bgzf_block X L src @ drop (length p + 26) dst" and n: "n = length p + 26"
    using assms(1) unfolding block_nonempty [OF False assms(2)] p_def
    by (auto split: if_splits)
  have small: "length p + 25 < 65536" using assms(4) by (simp add: p_def)
  have b: "bgzf_block X L src = take 16 g_magic @ z
      @ (p @ packInt32 (host X) (crc32 X src) @ packInt32 (host X) (of_nat (length src)))"
    by (simp add: bgzf_block_def Let_def assms(3) packInt16_little p_def z_def)
  have "rd16 (drop 16 dst') = rd16 z"
    unfolding r b by (simp add: g_magic_def rd16_append z_def)
  also have "\<dots> = length p + 25"
    unfolding z_def using small by (rule rd16_le16_of_nat)
  finally have "rd16 (drop 16 dst') = n - 1" by (simp add: n)
  moreover have "18 \<le> length dst'" unfolding r by (simp add: length_bgzf_block)
  ultimately have "unat (dst' ! 16) + 256 * unat (dst' ! 17) = n - 1"
    by (simp add: rd16_def)
  then show ?thesis using False n small by (simp add: p_def)
qed

text \<open>One byte, stored: a 32-byte block with BSIZE 31.\<close>

lemma bsize_little_endian_example:
  "\<exists>dst' n. bgzip_compress_block store_only (replicate 65536 0) BGZIP_MAX_BLOCK_SIZE [0x41] 6 = Some (dst', n)
      \<and> n = 32 \<and> unat (dst' ! 16) + 256 * unat (dst' ! 17) = 31"
proof -
  have len: "length (stored_blocks [0x41]) = 6"
    by (simp add: length_stored_blocks_short)
  have p: "fit (stored_blocks [0x41]) 65510 = stored_blocks [0x41]"
    by (simp add: fit_def len)
  have sne: "stored_blocks [0x41] \<noteq> []"
    using len by auto
  have l: "length (replicate 65536 (0 :: byte)) = BGZIP_MAX_BLOCK_SIZE"
    by (simp add: BGZIP_MAX_BLOCK_SIZE_def)
  have ne: "[0x41 :: byte] \<noteq> []" by simp
  have c: "bgzip_compress_block store_only (replicate 65536 0) BGZIP_MAX_BLOCK_SIZE [0x41] 6 =
      Some (bgzf_block store_only 6 [0x41] @ drop 32 (replicate 65536 0), 32)"
    unfolding block_nonempty [OF ne l] by (simp add: p len sne)
  from bsize_little_endian [OF c]
  show ?thesis
    unfolding c by (simp add: BGZIP_MAX_BLOCK_SIZE_def p len sne)
qed

text \<open>
  Claim C3. BSIZE is not the block length minus one on every host. \<^verbatim>\<open>packInt16\<close>
  keeps the result of \<^verbatim>\<open>htole16\<close> in a \<^verbatim>\<open>uint32_t\<close> and copies the first two bytes of
  that object, and on a big-endian host those two bytes are zero. There the encoder
  writes, for the chunk of the one byte \<open>0x41\<close>, a block of 32 bytes whose bytes 16 and
  17 are \<open>00 00\<close>, where the block length minus one is 31.
\<close>

theorem bsize_zero_on_big_endian:
  "bgzip_compress_block big_endian_host (replicate 65536 0) BGZIP_MAX_BLOCK_SIZE [0x41] 6
     = Some (bgzf_block big_endian_host 6 [0x41] @ drop 32 (replicate 65536 0), 32)
   \<and> take 18 (bgzf_block big_endian_host 6 [0x41]) = take 16 g_magic @ [0, 0]
   \<and> unat (bgzf_block big_endian_host 6 [0x41] ! 16)
       + 256 * unat (bgzf_block big_endian_host 6 [0x41] ! 17) = 0"
proof -
  have l: "length (replicate 65536 (0 :: byte)) = BGZIP_MAX_BLOCK_SIZE"
    by (simp add: BGZIP_MAX_BLOCK_SIZE_def)
  have ne: "[0x41 :: byte] \<noteq> []" by simp
  have c: "bgzip_compress_block big_endian_host (replicate 65536 0) BGZIP_MAX_BLOCK_SIZE [0x41] 6 =
      Some (bgzf_block big_endian_host 6 [0x41] @ drop 32 (replicate 65536 0), 32)"
    unfolding block_nonempty [OF ne l] by (simp add: stored_one_byte)
  have b: "bgzf_block big_endian_host 6 [0x41] = take 16 g_magic @ [0, 0]
      @ (stored_blocks [0x41] @ le32 (crc32_ieee [0x41]) @ le32 1)"
    by (simp add: bgzf_block_def Let_def packInt16_big packInt32_le32 stored_one_byte)
  show ?thesis
    unfolding c unfolding b by (simp add: g_magic_def)
qed

text \<open>
  Claim C4. In the block the encoder writes for a non-empty chunk, the four bytes at
  \<open>n - 8\<close> are the little-endian CRC32 of the chunk and the four bytes at \<open>n - 4\<close> the
  little-endian chunk length modulo \<open>2 ^ 32\<close>, on either byte order of the host.
\<close>

theorem block_footer:
  assumes "bgzip_compress_block X dst BGZIP_MAX_BLOCK_SIZE src L = Some (dst', n)"
    and "length dst = BGZIP_MAX_BLOCK_SIZE"
    and "src \<noteq> []"
  shows "take 4 (drop (n - 8) dst') = le32 (crc32 X src)
       \<and> take 4 (drop (n - 4) dst') = le32 (of_nat (length src))
       \<and> unat (of_nat (length src) :: 32 word) = length src mod 2 ^ 32"
proof -
  define p where "p = deflate_compress X L src 65510"
  define h where "h = take 16 g_magic @ packInt16 (host X) (of_nat (length p + 25)) @ p"
  have r: "dst' = bgzf_block X L src @ drop (length p + 26) dst" and n: "n = length p + 26"
    using assms(1) unfolding block_nonempty [OF assms(3,2)] p_def
    by (auto split: if_splits)
  have lh: "length h = length p + 18"
    by (simp add: h_def g_magic_def)
  have b: "bgzf_block X L src = h @ le32 (crc32 X src) @ le32 (of_nat (length src))"
    by (simp add: bgzf_block_def Let_def packInt32_le32 p_def h_def)
  have "take 4 (drop (n - 8) dst') = le32 (crc32 X src)"
    unfolding r b n using lh by simp
  moreover have "take 4 (drop (n - 4) dst') = le32 (of_nat (length src))"
    unfolding r b n using lh by simp
  ultimately show ?thesis
    by (simp add: unat_of_nat)
qed

text \<open>One byte, stored: CRC32 at offset 24 and ISIZE 1 at offset 28.\<close>

theorem block_footer_witness:
  "\<exists>dst' n. bgzip_compress_block store_only (replicate 65536 0) BGZIP_MAX_BLOCK_SIZE [0x41] 6 = Some (dst', n)
      \<and> n = 32
      \<and> take 4 (drop 24 dst') = le32 (crc32_ieee [0x41])
      \<and> take 4 (drop 28 dst') = [1, 0, 0, 0]"
proof -
  have len: "length (stored_blocks [0x41]) = 6"
    by (simp add: length_stored_blocks_short)
  have p: "fit (stored_blocks [0x41]) 65510 = stored_blocks [0x41]"
    by (simp add: fit_def len)
  have sne: "stored_blocks [0x41] \<noteq> []"
    using len by auto
  have l: "length (replicate 65536 (0 :: byte)) = BGZIP_MAX_BLOCK_SIZE"
    by (simp add: BGZIP_MAX_BLOCK_SIZE_def)
  have ne: "[0x41 :: byte] \<noteq> []" by simp
  have c: "bgzip_compress_block store_only (replicate 65536 0) BGZIP_MAX_BLOCK_SIZE [0x41] 6 =
      Some (bgzf_block store_only 6 [0x41] @ drop 32 (replicate 65536 0), 32)"
    unfolding block_nonempty [OF ne l] by (simp add: p len sne)
  from block_footer [OF c l ne]
  show ?thesis
    unfolding c by (simp add: le32_def)
qed

text \<open>
  The round trip where it holds. On a little-endian host, with a compressor that keeps
  to the space it is offered and a decompressor \<open>inflate\<close> that inverts it on chunks,
  every output of the driver without the marker reads back, block by block, as the
  input. The driver does return an output whenever the level is within \<open>-1..9\<close>, the
  compressor can be allocated at that level and no chunk makes it return 0.
\<close>

lemma roundtrip_little_endian:
  assumes "host X = LittleEndian"
    and "\<And>src. src \<noteq> [] \<Longrightarrow> length src \<le> BGZIP_BLOCK_SIZE \<Longrightarrow>
           length (deflate_compress X L src 65510) \<le> 65510"
    and "\<And>src. src \<noteq> [] \<Longrightarrow> length src \<le> BGZIP_BLOCK_SIZE \<Longrightarrow>
           deflate_compress X L src 65510 \<noteq> [] \<Longrightarrow>
           inflate (deflate_compress X L src 65510) = Some src"
  shows "(pg_bgzip_compress X 3 (Some B) (Some L) (Some False) = Inr (Bytea out)
            \<longrightarrow> bgzf_decode inflate (crc32 X) out = Some B)
       \<and> (- 1 \<le> L \<and> L \<le> 9 \<and> alloc_compressor_ex X L
            \<and> (\<forall>src. src \<noteq> [] \<and> length src \<le> BGZIP_BLOCK_SIZE
                  \<longrightarrow> deflate_compress X L src 65510 \<noteq> [])
            \<longrightarrow> (\<exists>out'. pg_bgzip_compress X 3 (Some B) (Some L) (Some False) = Inr (Bytea out')))"
proof (intro conjI impI)
  have Bp: "0 < BGZIP_BLOCK_SIZE" by (simp add: BGZIP_BLOCK_SIZE_def)
  assume a: "pg_bgzip_compress X 3 (Some B) (Some L) (Some False) = Inr (Bytea out)"
  note o = blocked_output [OF a]
  have out: "out = concat (map (bgzf_block X L) (slices BGZIP_BLOCK_SIZE B))"
    using o by simp
  have "length (deflate_compress X L c 65510) \<le> 65510
      \<and> inflate (deflate_compress X L c 65510) = Some c"
    if c: "c \<in> set (slices BGZIP_BLOCK_SIZE B)" for c
  proof -
    have s: "c \<noteq> []" "length c \<le> BGZIP_BLOCK_SIZE"
      using set_slices [OF Bp c] by simp_all
    have "deflate_compress X L c 65510 \<noteq> []"
      using o c by blast
    then show ?thesis
      using assms(2) [OF s] assms(3) [OF s] by simp
  qed
  then have "bgzf_decode inflate (crc32 X) (concat (map (bgzf_block X L) (slices BGZIP_BLOCK_SIZE B)))
      = Some (concat (slices BGZIP_BLOCK_SIZE B))"
    by (intro bgzf_decode_blocks [OF assms(1)]) blast
  then show "bgzf_decode inflate (crc32 X) out = Some B"
    by (simp add: out concat_slices [OF Bp])
next
  assume a: "- 1 \<le> L \<and> L \<le> 9 \<and> alloc_compressor_ex X L
            \<and> (\<forall>src. src \<noteq> [] \<and> length src \<le> BGZIP_BLOCK_SIZE
                  \<longrightarrow> deflate_compress X L src 65510 \<noteq> [])"
  then obtain buf n where "compress_loop X L B [] 0 = Inr (buf, n)"
    using compress_loop_total [of X L B "[]" 0] by blast
  then show "\<exists>out'. pg_bgzip_compress X 3 (Some B) (Some L) (Some False) = Inr (Bytea out')"
    using a by (simp add: pg_bgzip_compress_valid)
qed

text \<open>Three bytes through the store-only compressor and back.\<close>

lemma roundtrip_little_endian_example:
  "\<exists>out. pg_bgzip_compress store_only 3 (Some [0x41, 0x42, 0x43]) (Some 6) (Some False) = Inr (Bytea out)
      \<and> bgzf_decode stored_inflate crc32_ieee out = Some [0x41, 0x42, 0x43]"
proof -
  have t: "(pg_bgzip_compress store_only 3 (Some [0x41, 0x42, 0x43]) (Some 6) (Some False) = Inr (Bytea out)
            \<longrightarrow> bgzf_decode stored_inflate (crc32 store_only) out = Some [0x41, 0x42, 0x43])
       \<and> (- 1 \<le> (6 :: int) \<and> (6 :: int) \<le> 9 \<and> alloc_compressor_ex store_only 6
            \<and> (\<forall>src. src \<noteq> [] \<and> length src \<le> BGZIP_BLOCK_SIZE
                  \<longrightarrow> deflate_compress store_only 6 src 65510 \<noteq> [])
            \<longrightarrow> (\<exists>out'. pg_bgzip_compress store_only 3 (Some [0x41, 0x42, 0x43]) (Some 6) (Some False)
                         = Inr (Bytea out')))" for out
  proof (rule roundtrip_little_endian)
    show "host store_only = LittleEndian" by simp
    show "length (deflate_compress store_only 6 src 65510) \<le> 65510" for src
      by (simp add: length_fit)
    show "stored_inflate (deflate_compress store_only 6 src 65510) = Some src"
      if "deflate_compress store_only 6 src 65510 \<noteq> []" for src
      using that by (rule store_only_inverse)
  qed
  have "\<forall>src. src \<noteq> [] \<and> length src \<le> BGZIP_BLOCK_SIZE
        \<longrightarrow> deflate_compress store_only 6 src 65510 \<noteq> []"
    using store_only_succeeds by blast
  then have "\<exists>out'. pg_bgzip_compress store_only 3 (Some [0x41, 0x42, 0x43]) (Some 6) (Some False) = Inr (Bytea out')"
    using t [THEN conjunct2] by simp
  then obtain out where o: "pg_bgzip_compress store_only 3 (Some [0x41, 0x42, 0x43]) (Some 6) (Some False) = Inr (Bytea out)"
    by blast
  have "bgzf_decode stored_inflate crc32_ieee out = Some [0x41, 0x42, 0x43]"
    using t [of out, THEN conjunct1] o by simp
  then show ?thesis using o by blast
qed

text \<open>The output of the driver for one byte on the big-endian host.\<close>

lemma big_endian_one_byte:
  "pg_bgzip_compress big_endian_host 3 (Some [0x41]) (Some 6) (Some False)
     = Inr (Bytea (bgzf_block big_endian_host 6 [0x41]))"
proof -
  have s: "slices BGZIP_BLOCK_SIZE [0x41 :: byte] = [[0x41]]"
    by (simp add: slices_def BGZIP_BLOCK_SIZE_def)
  obtain buf n where l: "compress_loop big_endian_host 6 [0x41] [] 0 = Inr (buf, n)"
    using compress_loop_total [of big_endian_host 6 "[0x41]" "[]" 0]
    by (auto simp: fit_def length_stored_blocks_short BGZIP_BLOCK_SIZE_def)
  have "take n buf = bgzf_block big_endian_host 6 [0x41]"
    using compress_loop_Inr [OF l] by (simp add: s)
  then show ?thesis
    by (simp add: pg_bgzip_compress_valid l)
qed

text \<open>
  Claim C1. The round trip does not hold at every accepted level, nor on every host.
  Level -1 passes validation and goes unchanged to the allocator of the compressor;
  when the allocator knows the levels 0 to 12 only, the call on a non-empty buffer
  ends in the block error and gives no blocks to read back. On a big-endian host the
  blocks carry BSIZE 0 and the reader refuses the stream.
\<close>

theorem no_roundtrip_at_level_minus_one:
  "pg_bgzip_compress libdeflate_levels 3 (Some [0x41, 0x42, 0x43]) (Some (- 1)) (Some False)
     = Inl (BlockError 3)
   \<and> pg_bgzip_compress big_endian_host 3 (Some [0x41]) (Some 6) (Some False)
     = Inr (Bytea (bgzf_block big_endian_host 6 [0x41]))
   \<and> bgzf_decode stored_inflate crc32_ieee (bgzf_block big_endian_host 6 [0x41]) = None"
proof -
  have "compress_loop libdeflate_levels (- 1) [0x41, 0x42, 0x43] [] 0 = Inl (BlockError 3)"
    by (subst compress_loop_step) simp_all
  then have a: "pg_bgzip_compress libdeflate_levels 3 (Some [0x41, 0x42, 0x43]) (Some (- 1)) (Some False)
     = Inl (BlockError 3)"
    by (simp add: pg_bgzip_compress_valid)
  define t where "t = stored_blocks [0x41] @ le32 (crc32_ieee [0x41]) @ le32 1"
  define g16 where "g16 = take 16 g_magic"
  have lg: "length g16 = 16" "g16 \<noteq> []" by (simp_all add: g16_def g_magic_def)
  have b: "bgzf_block big_endian_host 6 [0x41] = g16 @ [0, 0] @ t"
    by (simp add: bgzf_block_def Let_def packInt16_big packInt32_le32 stored_one_byte t_def g16_def)
  have c: "bgzf_decode stored_inflate crc32_ieee (g16 @ [0, 0] @ t) = None"
    using lg by (subst bgzf_decode.simps) (simp add: rd16_def g16_def Let_def)
  show ?thesis
    using a big_endian_one_byte c unfolding b by simp
qed

section \<open>The whole-buffer path\<close>

text \<open>What \<open>pg_bgzip_gzip_compress\<close> returns for a present buffer and a level within
  \<open>-1..9\<close>: the bytes the compressor wrote, or SQL NULL from the \<^verbatim>\<open>bailout\<close> label.\<close>

lemma gzip_valid:
  assumes "- 1 \<le> L" and "L \<le> 9"
  shows "pg_bgzip_gzip_compress X (Some B) (Some L) =
     (if alloc_compressor_ex X L \<and> gzip_compress X L B (length B + 26) \<noteq> []
      then Inr \<lparr>ret = Bytea (gzip_compress X L B (length B + 26)),
                compressed_freed = False, compressor_freed = True\<rparr>
      else Inr (bailout (alloc_compressor_ex X L)))"
proof -
  have "take (length p) (memcpy buf 0 p (length p)) = p" for p buf :: "byte list"
    by (simp add: memcpy_def)
  then show ?thesis
    using assms
    by (simp add: pg_bgzip_gzip_compress_def Let_def BLOCK_HEADER_LENGTH_def BLOCK_FOOTER_LENGTH_def
        add.commute)
qed

text \<open>
  Claim C6. The buffer of \<open>length B + 18 + 8\<close> bytes is not always enough. A buffer of
  65536 bytes stored without compression needs two stored blocks, so its gzip member
  has 10 + (5 + 65535) + (5 + 1) + 8 = 65564 bytes, two more than the 65562 that are
  allocated: the compressor returns 0 and the function returns SQL NULL.
\<close>

theorem gzip_bound_too_small:
  "pg_bgzip_gzip_compress store_only (Some (replicate 65536 0)) (Some 0)
     = Inr \<lparr>ret = Null, compressed_freed = True, compressor_freed = True\<rparr>
   \<and> length (stored_gzip (replicate 65536 0)) = 65564
   \<and> length (replicate 65536 (0 :: byte)) + BLOCK_HEADER_LENGTH + BLOCK_FOOTER_LENGTH = 65562"
  by (simp add: gzip_valid fit_def length_stored_gzip_64k bailout_def
      BLOCK_HEADER_LENGTH_def BLOCK_FOOTER_LENGTH_def)

text \<open>
  Claim C7, as stated, fails: when no compressor can be allocated the function returns
  normally, with SQL NULL, and raises no error.
\<close>

theorem gzip_failure_is_not_an_error:
  "pg_bgzip_gzip_compress no_compressor (Some [0x41]) (Some (- 1))
     = Inr \<lparr>ret = Null, compressed_freed = True, compressor_freed = False\<rparr>
   \<and> \<not> isl (pg_bgzip_gzip_compress no_compressor (Some [0x41]) (Some (- 1)))"
  by (simp add: gzip_valid bailout_def)

text \<open>
  Claim C7, amended. For a level within \<open>-1..9\<close>: when the allocation of the compressor
  returns NULL or the gzip compression returns 0, the function frees the output buffer
  (and the compressor, if there is one) and returns SQL NULL; and whenever it returns a
  \<^verbatim>\<open>bytea\<close>, that is the whole non-empty output of the compressor.
\<close>

theorem gzip_failure_returns_null:
  assumes "- 1 \<le> L" and "L \<le> 9"
  shows "(\<not> alloc_compressor_ex X L \<or> gzip_compress X L B (length B + 26) = [] \<longrightarrow>
            pg_bgzip_gzip_compress X (Some B) (Some L)
              = Inr \<lparr>ret = Null, compressed_freed = True,
                     compressor_freed = alloc_compressor_ex X L\<rparr>)
       \<and> (\<forall>r out. pg_bgzip_gzip_compress X (Some B) (Some L) = Inr r \<and> ret r = Bytea out \<longrightarrow>
            alloc_compressor_ex X L \<and> out = gzip_compress X L B (length B + 26) \<and> out \<noteq> [])"
  unfolding gzip_valid [OF assms]
  by (auto simp: bailout_def)

text \<open>The empty buffer at level 0 when no compressor can be allocated.\<close>

theorem gzip_failure_returns_null_witness:
  "pg_bgzip_gzip_compress no_compressor (Some []) (Some 0)
     = Inr \<lparr>ret = Null, compressed_freed = True, compressor_freed = False\<rparr>"
  using gzip_failure_returns_null [of 0 no_compressor "[]"]
  by simp

section \<open>The position in the block error\<close>

text \<open>
  Claim C8. The error of the block path prints \<^verbatim>\<open>in_size\<close>, the number of bytes not yet
  consumed, and not the offset of the failing chunk: when the first chunk of a
  three-byte buffer fails, at offset 0, the position in the message is 3. Lemma
  \<open>compress_loop_Inl\<close> gives the general form: the value reported is the input length
  minus the offset of the failing chunk.
\<close>

theorem block_error_reports_remaining:
  "pg_bgzip_compress no_compressor 3 (Some [0x41, 0x42, 0x43]) (Some (- 1)) (Some False)
     = Inl (BlockError 3)"
proof -
  have "compress_loop no_compressor (- 1) [0x41, 0x42, 0x43] [] 0 = Inl (BlockError 3)"
    by (subst compress_loop_step) simp_all
  then show ?thesis
    by (simp add: pg_bgzip_compress_valid)
qed

end
